theory Spec2Isabelle
  imports Complex_Main "HOL-Library.Word"
begin

section \<open>The render callback of macos_audiounit.c\<close>

text \<open>
  The embedding follows \<^verbatim>\<open>callback\<close> of \<^verbatim>\<open>src/macos_audiounit.c\<close> line by line.

  \<^item> \<^verbatim>\<open>Float64\<close> is modelled as \<^typ>\<open>real\<close>: the arithmetic of the generator is exact and
    \<^verbatim>\<open>M_PI\<close> is \<open>\<pi>\<close>. Rounding is outside the model; a property stated "within
    \<open>\<epsilon>\<close>" is proved as an exact equality or bound.
  \<^item> A \<^verbatim>\<open>Float32\<close> is a finite value, an infinity or NaN. Line 55 passes a \<^verbatim>\<open>double\<close> to
    \<^verbatim>\<open>sinf\<close>, which takes a \<^verbatim>\<open>float\<close>: the conversion overflows to an infinity beyond
    the range of \<^verbatim>\<open>float\<close>, and the sine of an infinity is NaN.
  \<^item> \<^verbatim>\<open>UInt32\<close> is \<^typ>\<open>32 word\<close>. \<^verbatim>\<open>int\<close> is \<^typ>\<open>int\<close>, and an \<^verbatim>\<open>int\<close> result above
    \<^verbatim>\<open>INT_MAX\<close> is undefined behaviour, as in C.
  \<^item> The sample memory \<^verbatim>\<open>ioData->mBuffers[0].mData\<close> is a list of slots, written by
    index; a write outside it is undefined behaviour.
  \<^item> Undefined behaviour is the result \<open>None\<close>.
\<close>

subsection \<open>Data\<close>

type_synonym Float64 = real
datatype Float32 = Finite real | PlusInfinity | MinusInfinity | NaN
type_synonym UInt32 = "32 word"
type_synonym OSStatus = int

text \<open>The handle \<^verbatim>\<open>AudioUnit\<close> is a pointer; only its identity matters here.\<close>

type_synonym AudioUnit = nat

record AudioContext =
  generator :: Float64
  samplerate :: Float64
  channels :: int
  audioUnit :: AudioUnit

definition noErr :: OSStatus where
  "noErr = 0"

definition INT_MAX :: int where
  "INT_MAX = 2147483647"

definition M_PI :: Float64 where
  "M_PI = pi"

text \<open>
  The conversion of a \<^verbatim>\<open>double\<close> to \<^verbatim>\<open>float\<close>, rounding to nearest: the largest
  \<^verbatim>\<open>float\<close> is \<open>2 ^ 128 - 2 ^ 104\<close>, and a value at least half way from it to
  \<open>2 ^ 128\<close> becomes an infinity. A \<^verbatim>\<open>double\<close> that is itself infinite lies beyond that
  bound as well.
\<close>

definition narrow :: "Float64 \<Rightarrow> Float32" where
  "narrow x =
     (if 2 ^ 128 - 2 ^ 103 \<le> x then PlusInfinity
      else if x \<le> - (2 ^ 128 - 2 ^ 103) then MinusInfinity
      else Finite x)"

fun sinf :: "Float32 \<Rightarrow> Float32" where
  "sinf (Finite x) = Finite (sin x)"
| "sinf PlusInfinity = NaN"
| "sinf MinusInfinity = NaN"
| "sinf NaN = NaN"

subsection \<open>The loops\<close>

text \<open>
  Lines 56 to 58: \<^verbatim>\<open>for (int j=0; j<channels; ++j) data[channels * i + j] = sample;\<close>
  The function is the loop from a given \<open>j\<close> on. The locals \<^verbatim>\<open>channels\<close> and
  \<^verbatim>\<open>generator\<close> are written \<open>nchannels\<close> and \<open>gen\<close>, the field names being taken by
  the record.
\<close>

function channel_loop :: "int \<Rightarrow> int \<Rightarrow> Float32 \<Rightarrow> int \<Rightarrow> Float32 list \<Rightarrow> Float32 list option" where
  "channel_loop nchannels i sample j data =
     (if j < nchannels then
        (let k = nchannels * i + j in
         if k < 0 \<or> INT_MAX < k \<or> int (length data) \<le> k then None
         else channel_loop nchannels i sample (j + 1) (data[nat k := sample]))
      else Some data)"
  by pat_completeness auto
termination
  by (relation "measure (\<lambda>(nchannels, i, sample, j, data). nat (nchannels - j))") auto

text \<open>
  Lines 49 to 59: the loop over the frames, from a given \<open>i\<close> on. The comparison
  \<^verbatim>\<open>i<inNumberFrames\<close> is unsigned: \<open>i\<close> is converted to \<^verbatim>\<open>UInt32\<close>, that is taken
  modulo \<open>2 ^ 32\<close>. \<^verbatim>\<open>++i\<close> overflows at \<^verbatim>\<open>INT_MAX\<close>.
\<close>

function frame_loop ::
  "Float64 \<Rightarrow> int \<Rightarrow> UInt32 \<Rightarrow> int \<Rightarrow> Float64 \<Rightarrow> Float32 list \<Rightarrow> (Float64 \<times> Float32 list) option" where
  "frame_loop samplePeriod nchannels inNumberFrames i gen data =
     (if i mod 2 ^ 32 < uint inNumberFrames then
        (let gen1 = gen + 1.0;
             gen2 = (if gen1 > samplePeriod then gen1 - samplePeriod else gen1);
             sample = sinf (narrow (2 * M_PI * gen2 / samplePeriod))
         in case channel_loop nchannels i sample 0 data of
              None \<Rightarrow> None
            | Some data1 \<Rightarrow>
                if INT_MAX < i + 1 then None
                else frame_loop samplePeriod nchannels inNumberFrames (i + 1) gen2 data1)
      else Some (gen, data))"
  by pat_completeness auto
termination
proof (relation "measure (\<lambda>(samplePeriod, nchannels, inNumberFrames, i, gen, data).
        nat (uint inNumberFrames - i))")
  show "wf (measure (\<lambda>(samplePeriod, nchannels, inNumberFrames, i, gen, data).
        nat (uint inNumberFrames - i)))"
    by simp
next
  fix samplePeriod :: Float64 and nchannels i :: int and inNumberFrames :: UInt32
    and gen gen1 gen2 :: Float64 and data data1 :: "Float32 list" and sample :: Float32
  assume below: "i mod 2 ^ 32 < uint inNumberFrames" and fits: "\<not> INT_MAX < i + 1"
  have "i < uint inNumberFrames"
  proof (cases "0 \<le> i")
    case True
    with fits have "i mod 2 ^ 32 = i"
      by (simp add: INT_MAX_def)
    with below show ?thesis
      by simp
  next
    case False
    moreover have "0 \<le> uint inNumberFrames"
      by simp
    ultimately show ?thesis
      by linarith
  qed
  then show "((samplePeriod, nchannels, inNumberFrames, i + 1, gen2, data1),
              (samplePeriod, nchannels, inNumberFrames, i, gen, data))
             \<in> measure (\<lambda>(samplePeriod, nchannels, inNumberFrames, i, gen, data).
                  nat (uint inNumberFrames - i))"
    by simp
qed

declare channel_loop.simps [simp del]
declare frame_loop.simps [simp del]

text \<open>
  The callback. The action flags, the time stamp and the bus number are arguments of
  the C function; the time stamp's structure is not needed, so its type is left open.
  The result is the status, the context and the sample memory on return.
\<close>

definition callback ::
  "AudioContext \<Rightarrow> UInt32 \<Rightarrow> 'ts \<Rightarrow> UInt32 \<Rightarrow> UInt32 \<Rightarrow> Float32 list
     \<Rightarrow> (OSStatus \<times> AudioContext \<times> Float32 list) option" where
  "callback context ioActionFlags inTimeStamp inBusNumber inNumberFrames data =
     (let frequency = 440.0;
          gen = generator context;
          samplePeriod = samplerate context / frequency;
          nchannels = channels context
      in case frame_loop samplePeriod nchannels inNumberFrames 0 gen data of
           None \<Rightarrow> None
         | Some (gen', data') \<Rightarrow> Some (noErr, context\<lparr>generator := gen'\<rparr>, data'))"

subsection \<open>The loop body, named\<close>

text \<open>
  Lines 50 to 53, one frame's update of the generator, and line 55, the sample computed
  from it. The loops above have them inline; they are named here to state what the
  loops compute.
\<close>

definition wrap_step :: "Float64 \<Rightarrow> Float64 \<Rightarrow> Float64" where
  "wrap_step samplePeriod gen =
     (if gen + 1 > samplePeriod then gen + 1 - samplePeriod else gen + 1)"

definition sample_at :: "Float64 \<Rightarrow> Float64 \<Rightarrow> Float32" where
  "sample_at samplePeriod gen = sinf (narrow (2 * M_PI * gen / samplePeriod))"


text \<open>
  How many of the first \<open>N\<close> frames run line 52, the subtraction of the period: a
  count over the same frame sequence, which the code itself does not keep.
\<close>

fun subtractions :: "Float64 \<Rightarrow> Float64 \<Rightarrow> nat \<Rightarrow> nat" where
  "subtractions samplePeriod gen 0 = 0"
| "subtractions samplePeriod gen (Suc N) =
     (if gen + 1 > samplePeriod then 1 else 0)
       + subtractions samplePeriod (wrap_step samplePeriod gen) N"

text \<open>
  The caller's side of the contract: the sample memory holds the requested
  \<open>N \<times> channels\<close> slots, and every slot of it has an index that an \<^verbatim>\<open>int\<close> can hold.
\<close>

definition adequately_sized :: "AudioContext \<Rightarrow> UInt32 \<Rightarrow> Float32 list \<Rightarrow> bool" where
  "adequately_sized context inNumberFrames data \<longleftrightarrow>
     uint inNumberFrames * channels context \<le> int (length data) \<and> int (length data) \<le> INT_MAX"

text \<open>The phase of a result, when there is one.\<close>

definition returned_phase :: "(OSStatus \<times> AudioContext \<times> Float32 list) option \<Rightarrow> Float64 option" where
  "returned_phase r = map_option (\<lambda>(status, context, data). generator context) r"

text \<open>
  The backend calling the callback once per request, each request with its frame count
  and its own sample memory, the context passed from one call to the next. The result
  is the last context and the samples of all the calls, one call's requested slots
  after the other's.
\<close>

fun render_chunks ::
  "AudioContext \<Rightarrow> UInt32 \<Rightarrow> 'ts \<Rightarrow> UInt32 \<Rightarrow> (UInt32 \<times> Float32 list) list
     \<Rightarrow> (AudioContext \<times> Float32 list) option" where
  "render_chunks context ioActionFlags inTimeStamp inBusNumber [] = Some (context, [])"
| "render_chunks context ioActionFlags inTimeStamp inBusNumber ((inNumberFrames, data) # requests) =
     (case callback context ioActionFlags inTimeStamp inBusNumber inNumberFrames data of
        None \<Rightarrow> None
      | Some (status, context1, data1) \<Rightarrow>
          (case render_chunks context1 ioActionFlags inTimeStamp inBusNumber requests of
             None \<Rightarrow> None
           | Some (context2, stream) \<Rightarrow>
               Some (context2,
                     take (unat inNumberFrames * nat (channels context)) data1 @ stream)))"

subsection \<open>The reference algorithm of the specification\<close>

text \<open>
  The specification's algorithm, in its words: for each of the \<open>N\<close> frames, increment
  the phase by 1; if the phase exceeds \<open>P\<close>, subtract \<open>P\<close>; the sample is the sine of
  \<open>2\<pi> \<cdot> phase / P\<close>; write that value to every channel slot of the frame. The
  samples are 32-bit floating point (section 6 of the specification), so the sine is the
  one of that format.
\<close>

fun reference_render :: "real \<Rightarrow> nat \<Rightarrow> real \<Rightarrow> nat \<Rightarrow> Float32 list" where
  "reference_render P channelCount phase 0 = []"
| "reference_render P channelCount phase (Suc N) =
     (let phase1 = phase + 1;
          phase2 = (if phase1 > P then phase1 - P else phase1);
          v = sinf (narrow (2 * M_PI * phase2 / P))
      in replicate channelCount v @ reference_render P channelCount phase2 N)"

fun reference_phase :: "real \<Rightarrow> real \<Rightarrow> nat \<Rightarrow> real" where
  "reference_phase P phase 0 = phase"
| "reference_phase P phase (Suc N) =
     (let phase1 = phase + 1;
          phase2 = (if phase1 > P then phase1 - P else phase1)
      in reference_phase P phase2 N)"

section \<open>What the loops compute\<close>

lemma channel_loop_writes:
  assumes "0 \<le> i" and "0 \<le> j"
    and "j < c \<longrightarrow> c * i + c \<le> int (length data) \<and> c * i + c \<le> INT_MAX + 1"
  shows "\<exists>d. channel_loop c i s j data = Some d \<and> length d = length data \<and>
           (\<forall>k<length data. d ! k = (if c * i + j \<le> int k \<and> int k < c * i + c then s else data ! k))"
  using assms
proof (induction c i s j data rule: channel_loop.induct)
  case (1 c i s j data)
  show ?case
  proof (cases "j < c")
    case False
    then show ?thesis
      by (auto simp add: channel_loop.simps [of c i s j data])
  next
    case True
    define k where "k = c * i + j"
    have c_pos: "0 < c" using True "1.prems" by linarith
    have "0 \<le> c * i" using c_pos "1.prems"(1) by simp
    then have k0: "0 \<le> k" using "1.prems" by (simp add: k_def)
    have k1: "k \<le> INT_MAX" and k2: "k < int (length data)"
      using True "1.prems" by (simp_all add: k_def)
    have ok: "\<not> (k < 0 \<or> INT_MAX < k \<or> int (length data) \<le> k)"
      using k0 k1 k2 by simp
    have "\<exists>d. channel_loop c i s (j + 1) (data[nat k := s]) = Some d \<and>
            length d = length (data[nat k := s]) \<and>
            (\<forall>n<length (data[nat k := s]). d ! n =
               (if c * i + (j + 1) \<le> int n \<and> int n < c * i + c then s else data[nat k := s] ! n))"
      using "1.IH" [OF True k_def ok] "1.prems" by simp
    then obtain d where d: "channel_loop c i s (j + 1) (data[nat k := s]) = Some d"
      "length d = length data"
      "\<forall>n<length data. d ! n =
               (if c * i + (j + 1) \<le> int n \<and> int n < c * i + c then s else data[nat k := s] ! n)"
      by auto
    have unfold: "channel_loop c i s j data = channel_loop c i s (j + 1) (data[nat k := s])"
      using True ok by (simp add: channel_loop.simps [of c i s j data] k_def Let_def)
    have "\<forall>n<length data. d ! n = (if c * i + j \<le> int n \<and> int n < c * i + c then s else data ! n)"
    proof (intro allI impI)
      fix n assume n: "n < length data"
      show "d ! n = (if c * i + j \<le> int n \<and> int n < c * i + c then s else data ! n)"
      proof (cases "int n = k")
        case True
        then have "nat k = n" by simp
        with d(3) n True show ?thesis using \<open>j < c\<close> by (simp add: k_def)
      next
        case False
        then have "nat k \<noteq> n" using k0 by auto
        with d(3) n False show ?thesis by (auto simp: k_def)
      qed
    qed
    with d unfold show ?thesis by simp
  qed
qed


lemma frame_loop_renders:
  assumes "0 \<le> i" and "i \<le> uint n" and "uint n \<le> INT_MAX"
    and "0 < c \<longrightarrow> c * uint n \<le> int (length data) \<and> c * uint n \<le> INT_MAX + 1"
  shows "\<exists>d. frame_loop P c n i g data = Some ((wrap_step P ^^ nat (uint n - i)) g, d) \<and>
           length d = length data \<and>
           (\<forall>k<length data. d ! k =
              (if 0 < c \<and> c * i \<le> int k \<and> int k < c * uint n
               then sample_at P ((wrap_step P ^^ Suc (nat (int k div c - i))) g)
               else data ! k))"
  using assms
proof (induction P c n i g data rule: frame_loop.induct)
  case (1 P c n i g data)
  have imod: "i mod 2 ^ 32 = i"
    using "1.prems"(1,2,3) by (simp add: INT_MAX_def)
  show ?case
  proof (cases "i < uint n")
    case False
    then have stop: "frame_loop P c n i g data = Some (g, data)"
      using imod by (simp add: frame_loop.simps [of P c n i g data])
    have "nat (uint n - i) = 0" "\<not> (c * i \<le> int k \<and> int k < c * uint n)" if "0 < c" for k
      using False that by (simp_all add: not_less) (meson mult_left_mono order.strict_implies_order not_less order_trans)
    moreover have "nat (uint n - i) = 0" using False by simp
    ultimately show ?thesis
      using stop by auto
  next
    case True
    define g2 where "g2 = wrap_step P g"
    define s where "s = sample_at P g2"
    have fits: "\<not> INT_MAX < i + 1"
      using True "1.prems"(3) by simp
    have inner_pre: "(0::int) < c \<longrightarrow> c * i + c \<le> int (length data) \<and> c * i + c \<le> INT_MAX + 1"
    proof
      assume c_pos: "0 < c"
      have "c * (i + 1) \<le> c * uint n"
        using c_pos True by (intro mult_left_mono) simp_all
      then show "c * i + c \<le> int (length data) \<and> c * i + c \<le> INT_MAX + 1"
        using "1.prems"(4) c_pos by (simp add: distrib_left)
    qed
    obtain d1 where d1: "channel_loop c i s 0 data = Some d1" "length d1 = length data"
      "\<forall>k<length data. d1 ! k = (if c * i + 0 \<le> int k \<and> int k < c * i + c then s else data ! k)"
      using channel_loop_writes [of i 0 c data s] "1.prems"(1) inner_pre by auto
    have unfold: "frame_loop P c n i g data = frame_loop P c n (i + 1) g2 d1"
      using True fits d1(1) imod
      by (simp add: frame_loop.simps [of P c n i g data] Let_def g2_def s_def
            wrap_step_def sample_at_def)
    have "\<exists>d. frame_loop P c n (i + 1) g2 d1 = Some ((wrap_step P ^^ nat (uint n - (i + 1))) g2, d) \<and>
           length d = length d1 \<and>
           (\<forall>k<length d1. d ! k =
              (if 0 < c \<and> c * (i + 1) \<le> int k \<and> int k < c * uint n
               then sample_at P ((wrap_step P ^^ Suc (nat (int k div c - (i + 1)))) g2)
               else d1 ! k))"
    proof (rule "1.IH")
      show "i mod 2 ^ 32 < uint n" using True imod by simp
      show "g + 1.0 = g + 1.0" ..
      show "g2 = (if P < g + 1.0 then g + 1.0 - P else g + 1.0)"
        by (simp add: g2_def wrap_step_def)
      show "s = sinf (narrow (2 * M_PI * g2 / P))"
        by (simp add: s_def sample_at_def)
      show "channel_loop c i s 0 data = Some d1" by (rule d1(1))
      show "\<not> INT_MAX < i + 1" by (rule fits)
      show "0 \<le> i + 1" using "1.prems"(1) by simp
      show "i + 1 \<le> uint n" using True by simp
      show "uint n \<le> INT_MAX" by (rule "1.prems"(3))
      show "0 < c \<longrightarrow> c * uint n \<le> int (length d1) \<and> c * uint n \<le> INT_MAX + 1"
        using "1.prems"(4) d1(2) by simp
    qed
    then obtain d where d: "frame_loop P c n (i + 1) g2 d1 = Some ((wrap_step P ^^ nat (uint n - (i + 1))) g2, d)"
      "length d = length data"
      "\<forall>k<length data. d ! k =
              (if 0 < c \<and> c * (i + 1) \<le> int k \<and> int k < c * uint n
               then sample_at P ((wrap_step P ^^ Suc (nat (int k div c - (i + 1)))) g2)
               else d1 ! k)"
      using d1(2) by auto
    have gen_eq: "(wrap_step P ^^ nat (uint n - (i + 1))) g2 = (wrap_step P ^^ nat (uint n - i)) g"
    proof -
      have "nat (uint n - i) = Suc (nat (uint n - (i + 1)))"
        using True by simp
      then show ?thesis
        by (simp add: g2_def funpow_swap1)
    qed
    have slots: "\<forall>k<length data. d ! k =
              (if 0 < c \<and> c * i \<le> int k \<and> int k < c * uint n
               then sample_at P ((wrap_step P ^^ Suc (nat (int k div c - i))) g)
               else data ! k)"
    proof (intro allI impI)
      fix k assume k: "k < length data"
      show "d ! k = (if 0 < c \<and> c * i \<le> int k \<and> int k < c * uint n
               then sample_at P ((wrap_step P ^^ Suc (nat (int k div c - i))) g)
               else data ! k)"
      proof (cases "0 < c")
        case False
        then have "\<not> (c * i + 0 \<le> int k \<and> int k < c * i + c)"
          by simp
        then have "d1 ! k = data ! k"
          using d1(3) k by auto
        then show ?thesis
          using False d(3) k by simp
      next
        case c_pos: True
        have below_n: "c * i + c \<le> c * uint n"
        proof -
          have "c * (i + 1) \<le> c * uint n"
            using c_pos True by (intro mult_left_mono) simp_all
          then show ?thesis by (simp add: distrib_left)
        qed
        consider (before) "int k < c * i" | (this_frame) "c * i \<le> int k" "int k < c * i + c"
          | (later) "c * i + c \<le> int k"
          by linarith
        then show ?thesis
        proof cases
          case before
          then show ?thesis using d(3) d1(3) k c_pos by (simp add: distrib_left)
        next
          case this_frame
          have "int k div c = i"
          proof -
            have "int k = i * c + (int k - c * i)" by (simp add: mult.commute)
            moreover have "0 \<le> int k - c * i" "int k - c * i < c"
              using this_frame by simp_all
            ultimately show ?thesis
              by (metis div_mult_self3 div_pos_pos_trivial add.commute add_0 c_pos less_irrefl)
          qed
          then show ?thesis
            using d(3) d1(3) k c_pos this_frame below_n
            by (simp add: distrib_left s_def g2_def)
        next
          case later
          then have "c * (i + 1) \<le> int k" by (simp add: distrib_left)
          then have "(c * (i + 1)) div c \<le> int k div c"
            using c_pos by (intro zdiv_mono1) simp_all
          then have "i + 1 \<le> int k div c"
            using c_pos by simp
          then have "nat (int k div c - i) = Suc (nat (int k div c - (i + 1)))"
            by simp
          moreover have "d1 ! k = data ! k"
            using d1(3) k later by simp
          ultimately show ?thesis
            using d(3) k c_pos later
            by (simp add: distrib_left g2_def funpow_swap1)
        qed
      qed
    qed
    show ?thesis
      using unfold d(1,2) gen_eq slots by simp
  qed
qed


lemma narrow_within:
  assumes "\<bar>x\<bar> \<le> 8"
  shows "narrow x = Finite x"
proof -
  have "- 8 \<le> x" and "x \<le> 8"
    using assms by (simp_all add: abs_le_iff)
  then show ?thesis
    by (simp add: narrow_def)
qed

lemma sample_at_in_period:
  assumes "0 < P" and "0 \<le> g" and "g \<le> P"
  shows "sample_at P g = Finite (sin (2 * pi * g / P))"
proof -
  have low: "0 \<le> 2 * pi * g / P"
    using assms(1,2) by simp
  have "2 * pi * g \<le> 2 * pi * P"
    using assms(3) by (intro mult_left_mono) simp_all
  then have high: "2 * pi * g / P \<le> 2 * pi"
    using assms(1) by (simp add: pos_divide_le_eq)
  have "pi < 4"
    by (rule pi_less_4)
  with low high have "\<bar>2 * pi * g / P\<bar> \<le> 8"
    by simp
  then show ?thesis
    by (simp add: sample_at_def M_PI_def narrow_within)
qed


lemma reference_render_Suc:
  "reference_render P c g (Suc N) =
     replicate c (sample_at P (wrap_step P g)) @ reference_render P c (wrap_step P g) N"
  by (simp add: Let_def sample_at_def wrap_step_def)

lemma reference_phase_Suc:
  "reference_phase P g (Suc N) = reference_phase P (wrap_step P g) N"
  by (simp add: Let_def wrap_step_def)

lemma reference_phase_funpow: "reference_phase P g N = (wrap_step P ^^ N) g"
proof (induction N arbitrary: g)
  case 0
  show ?case by simp
next
  case (Suc N)
  show ?case
    unfolding reference_phase_Suc Suc.IH by (simp add: funpow_swap1)
qed

lemma length_reference_render: "length (reference_render P c g N) = N * c"
proof (induction N arbitrary: g)
  case 0
  show ?case by simp
next
  case (Suc N)
  show ?case
    unfolding reference_render_Suc by (simp add: Suc.IH)
qed

lemma nth_reference_render:
  "k < N * c \<Longrightarrow> reference_render P c g N ! k = sample_at P ((wrap_step P ^^ Suc (k div c)) g)"
proof (induction N arbitrary: g k)
  case 0
  then show ?case by simp
next
  case (Suc N)
  show ?case
  proof (cases "k < c")
    case True
    then show ?thesis
      unfolding reference_render_Suc by (simp add: nth_append)
  next
    case False
    then have kc: "c \<le> k" by simp
    with Suc.prems have "k - c < N * c" by simp
    then have "reference_render P c (wrap_step P g) N ! (k - c)
        = sample_at P ((wrap_step P ^^ Suc ((k - c) div c)) (wrap_step P g))"
      by (rule Suc.IH)
    moreover have "k div c = Suc ((k - c) div c)"
      using kc Suc.prems by (cases "c = 0") (simp_all add: le_div_geq)
    ultimately show ?thesis
      unfolding reference_render_Suc using False by (simp add: nth_append funpow_swap1)
  qed
qed

lemma callback_renders:
  assumes "0 < channels context" and "adequately_sized context n data"
  shows "callback context ioActionFlags inTimeStamp inBusNumber n data =
     Some (noErr,
           context\<lparr>generator := (wrap_step (samplerate context / 440) ^^ unat n) (generator context)\<rparr>,
           reference_render (samplerate context / 440) (nat (channels context)) (generator context) (unat n)
             @ drop (unat n * nat (channels context)) data)"
proof -
  define c where "c = channels context"
  define P where "P = samplerate context / 440"
  define g where "g = generator context"
  define m where "m = unat n * nat c"
  have c_pos: "0 < c" using assms(1) by (simp add: c_def)
  have size: "c * uint n \<le> int (length data)" "int (length data) \<le> INT_MAX"
    using assms(2) by (simp_all add: adequately_sized_def c_def mult.commute)
  have "1 * uint n \<le> c * uint n"
    using c_pos by (intro mult_right_mono) simp_all
  then have n_fits: "uint n \<le> INT_MAX" using size by simp
  have int_m: "int m = c * uint n"
    using c_pos by (simp add: m_def mult.commute)
  have m_le: "m \<le> length data"
    using int_m size(1) by linarith
  obtain d where d: "frame_loop P c n 0 g data = Some ((wrap_step P ^^ nat (uint n - 0)) g, d)"
    "length d = length data"
    "\<forall>k<length data. d ! k =
              (if 0 < c \<and> c * 0 \<le> int k \<and> int k < c * uint n
               then sample_at P ((wrap_step P ^^ Suc (nat (int k div c - 0))) g)
               else data ! k)"
    using frame_loop_renders [of 0 n c data P g] n_fits size by auto
  have "d = reference_render P (nat c) g (unat n) @ drop m data"
  proof (rule nth_equalityI)
    show "length d = length (reference_render P (nat c) g (unat n) @ drop m data)"
      using m_le d(2) by (simp add: length_reference_render m_def)
  next
    fix k assume "k < length d"
    then have k: "k < length data" using d(2) by simp
    show "d ! k = (reference_render P (nat c) g (unat n) @ drop m data) ! k"
    proof (cases "k < m")
      case True
      then have "int k < c * uint n"
        using int_m by linarith
      moreover have "nat (int k div c) = k div nat c"
      proof -
        have "int (k div nat c) = int k div int (nat c)"
          by (rule zdiv_int)
        then show ?thesis
          using c_pos by simp
      qed
      ultimately show ?thesis
        using True d(3) k c_pos
        by (simp add: nth_append length_reference_render nth_reference_render m_def)
    next
      case False
      then have "\<not> int k < c * uint n"
        using int_m by linarith
      then show ?thesis
        using False d(3) k m_le
        by (simp add: nth_append length_reference_render m_def)
    qed
  qed
  then show ?thesis
    using d(1) by (simp add: callback_def c_def P_def g_def m_def Let_def)
qed

lemma frame_loop_generator:
  assumes "frame_loop P c n i g data = Some (g', d')" and "0 \<le> i" and "i \<le> uint n"
  shows "g' = (wrap_step P ^^ nat (uint n - i)) g"
  using assms
proof (induction P c n i g data rule: frame_loop.induct)
  case (1 P c n i g data)
  have "uint n < 2 ^ 32"
    using uint_bounded [of n] by simp
  then have imod: "i mod 2 ^ 32 = i"
    using "1.prems"(2,3) by simp
  show ?case
  proof (cases "i < uint n")
    case False
    then have "frame_loop P c n i g data = Some (g, data)"
      using imod by (simp add: frame_loop.simps [of P c n i g data])
    with "1.prems"(1) have "g' = g" by simp
    moreover have "nat (uint n - i) = 0" using False by simp
    ultimately show ?thesis by simp
  next
    case True
    define g2 where "g2 = wrap_step P g"
    define s where "s = sample_at P g2"
    from "1.prems"(1) True imod obtain d1 where
      d1: "channel_loop c i s 0 data = Some d1" and fits: "\<not> INT_MAX < i + 1"
      and rest: "frame_loop P c n (i + 1) g2 d1 = Some (g', d')"
      by (simp add: frame_loop.simps [of P c n i g data] Let_def g2_def s_def
            wrap_step_def sample_at_def split: option.splits if_splits)
    have "g' = (wrap_step P ^^ nat (uint n - (i + 1))) g2"
    proof (rule "1.IH")
      show "i mod 2 ^ 32 < uint n" using True imod by simp
      show "g + 1.0 = g + 1.0" ..
      show "g2 = (if P < g + 1.0 then g + 1.0 - P else g + 1.0)"
        by (simp add: g2_def wrap_step_def)
      show "s = sinf (narrow (2 * M_PI * g2 / P))"
        by (simp add: s_def sample_at_def)
      show "channel_loop c i s 0 data = Some d1" by (rule d1)
      show "\<not> INT_MAX < i + 1" by (rule fits)
      show "frame_loop P c n (i + 1) g2 d1 = Some (g', d')" by (rule rest)
      show "0 \<le> i + 1" using "1.prems"(2) by simp
      show "i + 1 \<le> uint n" using True by simp
    qed
    moreover have "nat (uint n - i) = Suc (nat (uint n - (i + 1)))"
      using True by simp
    ultimately show ?thesis
      by (simp add: g2_def funpow_swap1)
  qed
qed

lemma callback_generator:
  assumes "callback context ioActionFlags inTimeStamp inBusNumber n data = Some (status, context', data')"
  shows "status = noErr"
    and "context' = context\<lparr>generator := (wrap_step (samplerate context / 440) ^^ unat n) (generator context)\<rparr>"
proof -
  from assms obtain g' where
    loop: "frame_loop (samplerate context / 440) (channels context) n 0 (generator context) data = Some (g', data')"
    and res: "status = noErr" "context' = context\<lparr>generator := g'\<rparr>"
    by (auto simp: callback_def Let_def split: option.splits)
  have "g' = (wrap_step (samplerate context / 440) ^^ nat (uint n - 0)) (generator context)"
    using loop by (rule frame_loop_generator) simp_all
  then show "status = noErr"
    and "context' = context\<lparr>generator := (wrap_step (samplerate context / 440) ^^ unat n) (generator context)\<rparr>"
    using res by simp_all
qed

lemma wrap_step_bounds:
  assumes "1 \<le> P" and "0 \<le> g" and "g \<le> P"
  shows "0 < wrap_step P g" and "wrap_step P g \<le> P"
  using assms by (auto simp: wrap_step_def)

lemma wrap_steps_bounds:
  assumes "1 \<le> P" and "0 \<le> g" and "g \<le> P"
  shows "0 \<le> (wrap_step P ^^ N) g \<and> (wrap_step P ^^ N) g \<le> P"
proof (induction N)
  case 0
  show ?case using assms by simp
next
  case (Suc N)
  then show ?case
    using wrap_step_bounds [OF assms(1), of "(wrap_step P ^^ N) g"] by simp
qed

lemma wrap_steps_add: "(wrap_step P ^^ (M + N)) g = (wrap_step P ^^ N) ((wrap_step P ^^ M) g)"
proof -
  have "(wrap_step P ^^ (N + M)) g = (wrap_step P ^^ N) ((wrap_step P ^^ M) g)"
    by (simp add: funpow_add)
  then show ?thesis
    by (simp add: add.commute)
qed

lemma wrap_steps_no_wrap:
  "g + real N \<le> P \<Longrightarrow> (wrap_step P ^^ N) g = g + real N"
proof (induction N)
  case 0
  show ?case by simp
next
  case (Suc N)
  then have "(wrap_step P ^^ N) g = g + real N" by simp
  moreover have "wrap_step P (g + real N) = g + real N + 1"
    using Suc.prems by (simp add: wrap_step_def)
  ultimately show ?case
    by simp
qed

lemma subtractions_add:
  "subtractions P g (M + N) = subtractions P g M + subtractions P ((wrap_step P ^^ M) g) N"
  by (induction M arbitrary: g) (simp_all add: funpow_swap1)

lemma subtractions_no_wrap:
  "g + real N \<le> P \<Longrightarrow> subtractions P g N = 0"
proof (induction N arbitrary: g)
  case 0
  show ?case by simp
next
  case (Suc N)
  have "wrap_step P g = g + 1"
    using Suc.prems by (simp add: wrap_step_def)
  moreover have "subtractions P (g + 1) N = 0"
    using Suc.prems by (intro Suc.IH) simp
  ultimately show ?case
    using Suc.prems by simp
qed

lemma reference_render_add:
  "reference_render P c g (M + N) =
     reference_render P c g M @ reference_render P c ((wrap_step P ^^ M) g) N"
proof (induction M arbitrary: g)
  case 0
  show ?case by simp
next
  case (Suc M)
  have "reference_render P c g (Suc (M + N)) =
      replicate c (sample_at P (wrap_step P g)) @ reference_render P c (wrap_step P g) (M + N)"
    by (rule reference_render_Suc)
  then show ?case
    unfolding Suc.IH by (simp add: reference_render_Suc funpow_swap1 del: reference_render.simps)
qed

subsection \<open>Several calls in a row\<close>

lemma returned_phase_Some [simp]:
  "returned_phase (Some (status, context, data)) = Some (generator context)"
  by (simp add: returned_phase_def)

lemma render_chunks_renders:
  assumes "0 < channels context"
    and "\<forall>(n, data) \<in> set requests. adequately_sized context n data"
  shows "render_chunks context ioActionFlags inTimeStamp inBusNumber requests =
     Some (context\<lparr>generator :=
             (wrap_step (samplerate context / 440) ^^ sum_list (map (unat \<circ> fst) requests))
               (generator context)\<rparr>,
           reference_render (samplerate context / 440) (nat (channels context)) (generator context)
             (sum_list (map (unat \<circ> fst) requests)))"
  using assms
proof (induction requests arbitrary: "context")
  case Nil
  show ?case by simp
next
  case (Cons request requests)
  obtain n data where request: "request = (n, data)"
    by (cases request)
  define P where "P = samplerate context / 440"
  define c where "c = nat (channels context)"
  define context1 where "context1 = context\<lparr>generator := (wrap_step P ^^ unat n) (generator context)\<rparr>"
  have size: "adequately_sized context n data"
    using Cons.prems(2) request by simp
  have first: "callback context ioActionFlags inTimeStamp inBusNumber n data =
      Some (noErr, context1, reference_render P c (generator context) (unat n) @ drop (unat n * c) data)"
    using callback_renders [OF Cons.prems(1) size] by (simp add: P_def c_def context1_def)
  have "\<forall>(n, data) \<in> set requests. adequately_sized context1 n data"
    using Cons.prems(2) by (simp add: adequately_sized_def context1_def)
  moreover have "0 < channels context1"
    using Cons.prems(1) by (simp add: context1_def)
  ultimately have rest: "render_chunks context1 ioActionFlags inTimeStamp inBusNumber requests =
     Some (context1\<lparr>generator :=
             (wrap_step (samplerate context1 / 440) ^^ sum_list (map (unat \<circ> fst) requests))
               (generator context1)\<rparr>,
           reference_render (samplerate context1 / 440) (nat (channels context1)) (generator context1)
             (sum_list (map (unat \<circ> fst) requests)))"
    by (rule Cons.IH [rotated])
  have rest': "render_chunks context1 ioActionFlags inTimeStamp inBusNumber requests =
     Some (context\<lparr>generator :=
             (wrap_step P ^^ sum_list (map (unat \<circ> fst) requests))
               ((wrap_step P ^^ unat n) (generator context))\<rparr>,
           reference_render P c ((wrap_step P ^^ unat n) (generator context))
             (sum_list (map (unat \<circ> fst) requests)))"
    unfolding rest by (simp add: context1_def P_def c_def)
  have "render_chunks context ioActionFlags inTimeStamp inBusNumber (request # requests) =
     Some (context\<lparr>generator :=
             (wrap_step P ^^ sum_list (map (unat \<circ> fst) requests))
               ((wrap_step P ^^ unat n) (generator context))\<rparr>,
           reference_render P c (generator context) (unat n)
             @ reference_render P c ((wrap_step P ^^ unat n) (generator context))
                 (sum_list (map (unat \<circ> fst) requests)))"
    by (simp add: request first rest' c_def length_reference_render)
  then show ?case
    by (simp add: request reference_render_add wrap_steps_add P_def c_def comp_def)
qed

subsection \<open>A run of two frames at 1760 frames per second\<close>

text \<open>The period is 4: the samples are \<open>sin (\<pi> / 2)\<close> and \<open>sin \<pi>\<close>.\<close>

lemma two_frames_phase: "(wrap_step 4 ^^ 2) 0 = 2" "reference_phase 4 0 2 = 2"
  by (simp_all add: numeral_2_eq_2 wrap_step_def)

lemma two_frames_samples: "reference_render 4 2 0 2 = [Finite 1, Finite 1, Finite 0, Finite 0]"
proof -
  have "sample_at 4 1 = Finite (sin (2 * pi * 1 / 4))" and "sample_at 4 2 = Finite (sin (2 * pi * 2 / 4))"
    by (rule sample_at_in_period; simp)+
  then have samples: "sample_at 4 1 = Finite 1" "sample_at 4 2 = Finite 0"
    by simp_all
  have steps: "wrap_step 4 0 = 1" "wrap_step 4 1 = 2"
    by (simp_all add: wrap_step_def)
  have "reference_render 4 2 0 (Suc (Suc 0)) = [Finite 1, Finite 1, Finite 0, Finite 0]"
    unfolding reference_render_Suc steps samples by (simp add: numeral_2_eq_2)
  then show ?thesis
    by (simp only: numeral_2_eq_2)
qed

lemma two_frames_run:
  "callback \<lparr>generator = 0, samplerate = 1760, channels = 2, audioUnit = u\<rparr>
       ioActionFlags inTimeStamp inBusNumber 2 (map Finite [5, 5, 5, 5, 5])
     = Some (noErr, \<lparr>generator = 2, samplerate = 1760, channels = 2, audioUnit = u\<rparr>,
             map Finite [1, 1, 0, 0, 5])"
proof -
  have size: "adequately_sized \<lparr>generator = 0, samplerate = 1760, channels = 2, audioUnit = u\<rparr> 2
      (map Finite [5, 5, 5, 5, 5])"
    by (simp add: adequately_sized_def INT_MAX_def)
  show ?thesis
    using callback_renders [OF _ size, of ioActionFlags inTimeStamp inBusNumber]
    by (simp add: two_frames_phase two_frames_samples)
qed

subsection \<open>The scenario of \<^verbatim>\<open>main\<close>: 44100 frames per second, two channels\<close>

text \<open>
  The period is \<open>44100 / 440\<close>, a little more than 100: the first hundred frames do not
  wrap, the next one does.
\<close>

lemma hundred_frames: "(wrap_step (44100 / 440) ^^ 100) 0 = 100"
  using wrap_steps_no_wrap [of 0 100 "44100 / 440"] by simp

lemma frame_101: "wrap_step (44100 / 440) 100 = 101 - 44100 / 440"
  by (simp add: wrap_step_def)

lemma hundred_and_one_frames: "(wrap_step (44100 / 440) ^^ 101) 0 = 101 - 44100 / 440"
proof -
  have "(wrap_step (44100 / 440) ^^ (100 + 1)) 0 = wrap_step (44100 / 440) 100"
    unfolding wrap_steps_add hundred_frames by simp
  then show ?thesis
    unfolding frame_101 by simp
qed

lemma sample_101:
  "sample_at (44100 / 440) (101 - 44100 / 440) = Finite (sin (2 * pi * 101 / (44100 / 440)))"
proof -
  have "2 * pi * 101 / (44100 / 440) = 2 * pi * (101 - 44100 / 440) / (44100 / 440) + 2 * pi"
    by (simp add: field_simps)
  then have "sin (2 * pi * 101 / (44100 / 440)) = sin (2 * pi * (101 - 44100 / 440) / (44100 / 440))"
    by (simp only: sin_periodic)
  moreover have "sample_at (44100 / 440) (101 - 44100 / 440)
      = Finite (sin (2 * pi * (101 - 44100 / 440) / (44100 / 440)))"
    by (rule sample_at_in_period) simp_all
  ultimately show ?thesis
    by (simp only:)
qed

lemma main_sizes:
  "adequately_sized \<lparr>generator = g, samplerate = 44100, channels = 2, audioUnit = 1\<rparr> 100 (replicate 200 (Finite 0))"
  "adequately_sized \<lparr>generator = g, samplerate = 44100, channels = 2, audioUnit = 1\<rparr> 1 (map Finite [0, 0])"
  "adequately_sized \<lparr>generator = g, samplerate = 44100, channels = 2, audioUnit = 1\<rparr> 101 (replicate 202 (Finite 0))"
  by (simp_all add: adequately_sized_def INT_MAX_def)

lemma after_100_frames:
  "returned_phase (callback \<lparr>generator = 0, samplerate = 44100, channels = 2, audioUnit = 1\<rparr>
       0 () 0 100 (replicate 200 (Finite 0))) = Some 100"
proof -
  have "returned_phase (callback \<lparr>generator = 0, samplerate = 44100, channels = 2, audioUnit = 1\<rparr>
       0 () 0 100 (replicate 200 (Finite 0))) = Some ((wrap_step (44100 / 440) ^^ 100) 0)"
    using callback_renders [OF _ main_sizes(1), of 0 0 "()" 0] by simp
  then show ?thesis
    unfolding hundred_frames .
qed

lemma frame_101_alone:
  "callback \<lparr>generator = 100, samplerate = 44100, channels = 2, audioUnit = 1\<rparr> 0 () 0 1 (map Finite [0, 0])
     = Some (noErr, \<lparr>generator = 101 - 44100 / 440, samplerate = 44100, channels = 2, audioUnit = 1\<rparr>,
             [Finite (sin (2 * pi * 101 / (44100 / 440))), Finite (sin (2 * pi * 101 / (44100 / 440)))])"
proof -
  have "reference_render (44100 / 440) 2 100 1
      = [sample_at (44100 / 440) (wrap_step (44100 / 440) 100),
         sample_at (44100 / 440) (wrap_step (44100 / 440) 100)]"
    using reference_render_Suc [of "44100 / 440" 2 100 0] by (simp add: numeral_2_eq_2)
  then have samples: "reference_render (44100 / 440) 2 100 1
      = [Finite (sin (2 * pi * 101 / (44100 / 440))), Finite (sin (2 * pi * 101 / (44100 / 440)))]"
    unfolding frame_101 sample_101 .
  have "callback \<lparr>generator = 100, samplerate = 44100, channels = 2, audioUnit = 1\<rparr> 0 () 0 1 (map Finite [0, 0])
     = Some (noErr,
         \<lparr>generator = 100, samplerate = 44100, channels = 2, audioUnit = 1\<rparr>
           \<lparr>generator := (wrap_step (44100 / 440) ^^ 1) 100\<rparr>,
         reference_render (44100 / 440) 2 100 1 @ [])"
    using callback_renders [OF _ main_sizes(2), of 100 0 "()" 0] by simp
  also have "(wrap_step (44100 / 440) ^^ 1) 100 = 101 - 44100 / 440"
    using frame_101 by simp
  finally show ?thesis
    unfolding samples by simp
qed

subsection \<open>A sample rate of \<open>2 ^ -120\<close> frames per second\<close>



section \<open>The claims\<close>

text \<open>
  C1. Chunking invariance. For a positive sample rate and a positive channel count, let
  the backend make one request after the other, each with an adequately sized sample
  memory of its own, the frame counts summing to \<open>T\<close>. The calls return, and the
  context after the last call and the samples written, call after call, are the context
  and the first \<open>T \<times> channels\<close> slots that a single call for \<open>T\<close> frames returns.
\<close>

theorem chunking_invariance:
  assumes "0 < samplerate context" and "0 < channels context"
    and "\<forall>(n, data) \<in> set requests. adequately_sized context n data"
    and "unat T = sum_list (map (unat \<circ> fst) requests)"
    and "adequately_sized context T data"
  shows "\<exists>context' stream data'.
           render_chunks context ioActionFlags inTimeStamp inBusNumber requests = Some (context', stream)
           \<and> callback context ioActionFlags inTimeStamp inBusNumber T data = Some (noErr, context', data')
           \<and> take (unat T * nat (channels context)) data' = stream"
  unfolding render_chunks_renders [OF assms(2,3)] callback_renders [OF assms(2,5)] assms(4) [symmetric]
  by (simp add: length_reference_render)

theorem chunking_invariance_witness:
  "0 < samplerate \<lparr>generator = 0, samplerate = 1760, channels = 2, audioUnit = 1\<rparr>
   \<and> 0 < channels \<lparr>generator = 0, samplerate = 1760, channels = 2, audioUnit = 1\<rparr>
   \<and> adequately_sized \<lparr>generator = 0, samplerate = 1760, channels = 2, audioUnit = 1\<rparr> 1 (map Finite [5, 5, 5])
   \<and> adequately_sized \<lparr>generator = 0, samplerate = 1760, channels = 2, audioUnit = 1\<rparr> 2 (map Finite [7, 7, 7, 7])
   \<and> unat (3 :: UInt32) = sum_list (map (unat \<circ> fst) [(1 :: UInt32, (map Finite [5, 5, 5 :: real])), (2, (map Finite [7, 7, 7, 7]))])
   \<and> adequately_sized \<lparr>generator = 0, samplerate = 1760, channels = 2, audioUnit = 1\<rparr> 3 (map Finite [9, 9, 9, 9, 9, 9])
   \<and> (\<exists>context' stream data'.
         render_chunks \<lparr>generator = 0, samplerate = 1760, channels = 2, audioUnit = 1\<rparr> 0 () 0
             [(1, (map Finite [5, 5, 5])), (2, (map Finite [7, 7, 7, 7]))] = Some (context', stream)
         \<and> callback \<lparr>generator = 0, samplerate = 1760, channels = 2, audioUnit = 1\<rparr> 0 () 0 3
             (map Finite [9, 9, 9, 9, 9, 9]) = Some (noErr, context', data')
         \<and> take (unat (3 :: UInt32) * nat 2) data' = stream)"
proof -
  let ?ctx = "\<lparr>generator = 0, samplerate = 1760, channels = 2, audioUnit = 1\<rparr>"
  have rate: "0 < samplerate ?ctx"
    by simp
  have pos: "0 < channels ?ctx"
    by simp
  have size1: "adequately_sized ?ctx 1 (map Finite [5, 5, 5])" and size2: "adequately_sized ?ctx 2 (map Finite [7, 7, 7, 7])"
    by (simp_all add: adequately_sized_def INT_MAX_def)
  then have sizes: "\<forall>(n, data) \<in> set [(1, (map Finite [5, 5, 5])), (2, (map Finite [7, 7, 7, 7]))]. adequately_sized ?ctx n data"
    by simp
  have total: "unat (3 :: UInt32) = sum_list (map (unat \<circ> fst) [(1 :: UInt32, (map Finite [5, 5, 5 :: real])), (2, (map Finite [7, 7, 7, 7]))])"
    by simp
  have size: "adequately_sized ?ctx 3 (map Finite [9, 9, 9, 9, 9, 9])"
    by (simp add: adequately_sized_def INT_MAX_def)
  show ?thesis
    using chunking_invariance [OF rate pos sizes total size, of 0 "()" 0] rate pos size1 size2 size
    by simp
qed

text \<open>
  C2, as amended. The claim asks for a phase in \<open>[0, P)\<close> on return. The wrap of line 51
  tests \<^verbatim>\<open>generator > samplePeriod\<close>, so a phase equal to the period is kept, and one
  subtraction per frame brings the phase back below the period only when the period is
  at least one frame. For a sample rate of at least 440, and a phase between 0 and the
  period, both included, the phase on return is again between 0 and the period, both
  included.
\<close>

theorem phase_stays_within_closed_period:
  assumes "440 \<le> samplerate context"
    and "0 \<le> generator context" and "generator context \<le> samplerate context / 440"
    and "callback context ioActionFlags inTimeStamp inBusNumber inNumberFrames data
           = Some (status, context', data')"
  shows "0 \<le> generator context' \<and> generator context' \<le> samplerate context / 440"
proof -
  have "1 \<le> samplerate context / 440"
    using assms(1) by simp
  then have "0 \<le> (wrap_step (samplerate context / 440) ^^ unat inNumberFrames) (generator context)
      \<and> (wrap_step (samplerate context / 440) ^^ unat inNumberFrames) (generator context)
          \<le> samplerate context / 440"
    using assms(2,3) by (rule wrap_steps_bounds)
  then show ?thesis
    using callback_generator(2) [OF assms(4)] by simp
qed

theorem phase_stays_within_closed_period_witness:
  "440 \<le> samplerate \<lparr>generator = 0, samplerate = 1760, channels = 2, audioUnit = 1\<rparr>
   \<and> 0 \<le> generator \<lparr>generator = 0, samplerate = 1760, channels = 2, audioUnit = 1\<rparr>
   \<and> generator \<lparr>generator = 0, samplerate = 1760, channels = 2, audioUnit = 1\<rparr>
       \<le> samplerate \<lparr>generator = 0, samplerate = 1760, channels = 2, audioUnit = 1\<rparr> / 440
   \<and> callback \<lparr>generator = 0, samplerate = 1760, channels = 2, audioUnit = 1\<rparr> 0 () 0 2 (map Finite [5, 5, 5, 5, 5])
       = Some (noErr, \<lparr>generator = 2, samplerate = 1760, channels = 2, audioUnit = 1\<rparr>, (map Finite [1, 1, 0, 0, 5]))
   \<and> 0 \<le> generator \<lparr>generator = 2, samplerate = 1760, channels = 2, audioUnit = 1\<rparr>
   \<and> generator \<lparr>generator = 2, samplerate = 1760, channels = 2, audioUnit = 1\<rparr>
       \<le> samplerate \<lparr>generator = 0, samplerate = 1760, channels = 2, audioUnit = 1\<rparr> / 440"
proof -
  let ?ctx = "\<lparr>generator = 0, samplerate = 1760, channels = 2, audioUnit = 1\<rparr>"
  have run: "callback ?ctx 0 () 0 2 (map Finite [5, 5, 5, 5, 5])
      = Some (noErr, \<lparr>generator = 2, samplerate = 1760, channels = 2, audioUnit = 1\<rparr>, (map Finite [1, 1, 0, 0, 5]))"
    by (rule two_frames_run)
  have rate: "440 \<le> samplerate ?ctx" and low: "0 \<le> generator ?ctx"
    and high: "generator ?ctx \<le> samplerate ?ctx / 440"
    by simp_all
  show ?thesis
    using phase_stays_within_closed_period [OF rate low high run] run by simp
qed

text \<open>
  C2 as stated fails. At 880 frames per second the period is 2, and two frames from
  phase 0 leave the phase at 2, which is not below the period. At 220 frames per second
  the period is one half, and two frames from phase 0 leave the phase at 1, above the
  period. Every value of both runs is a small dyadic number, so the floating-point
  arithmetic of the code is exact on them.
\<close>

theorem phase_reaches_or_passes_period:
  "returned_phase (callback \<lparr>generator = 0, samplerate = 880, channels = 2, audioUnit = 1\<rparr>
       0 () 0 2 (map Finite [0, 0, 0, 0])) = Some 2
   \<and> \<not> (2 :: real) < 880 / 440
   \<and> returned_phase (callback \<lparr>generator = 0, samplerate = 220, channels = 2, audioUnit = 1\<rparr>
       0 () 0 2 (map Finite [0, 0, 0, 0])) = Some 1
   \<and> \<not> (1 :: real) \<le> 220 / 440"
proof -
  have size: "adequately_sized \<lparr>generator = 0, samplerate = r, channels = 2, audioUnit = 1\<rparr> 2 (map Finite [0, 0, 0, 0])"
    for r
    by (simp add: adequately_sized_def INT_MAX_def)
  have "(wrap_step 2 ^^ 2) 0 = 2"
    by (simp add: numeral_2_eq_2 wrap_step_def)
  then have a: "returned_phase (callback \<lparr>generator = 0, samplerate = 880, channels = 2, audioUnit = 1\<rparr>
       0 () 0 2 (map Finite [0, 0, 0, 0])) = Some 2"
    using callback_renders [OF _ size, of 880 0 "()" 0] by simp
  have "(wrap_step (1 / 2) ^^ 2) 0 = 1"
    by (simp add: numeral_2_eq_2 wrap_step_def)
  then have b: "returned_phase (callback \<lparr>generator = 0, samplerate = 220, channels = 2, audioUnit = 1\<rparr>
       0 () 0 2 (map Finite [0, 0, 0, 0])) = Some 1"
    using callback_renders [OF _ size, of 220 0 "()" 0] by simp
  show ?thesis
    using a b by simp
qed



text \<open>
  C4, as amended. At 44100 frames per second and two channels, from phase 0: after a
  request for 100 frames the phase is 100. After one further request for one frame the
  phase is \<open>101 - P\<close>, that is \<open>17 / 22\<close>, since 101 exceeds the period and line 52
  subtracts it; the sample of that frame is \<open>sin (2\<pi> \<cdot> 101 / P)\<close>, and both channel
  slots hold it.
\<close>

theorem scenario_frame_101_wraps:
  "returned_phase (callback \<lparr>generator = 0, samplerate = 44100, channels = 2, audioUnit = 1\<rparr>
       0 () 0 100 (replicate 200 (Finite 0))) = Some 100
   \<and> callback \<lparr>generator = 100, samplerate = 44100, channels = 2, audioUnit = 1\<rparr> 0 () 0 1 (map Finite [0, 0])
       = Some (noErr, \<lparr>generator = 101 - 44100 / 440, samplerate = 44100, channels = 2, audioUnit = 1\<rparr>,
               [Finite (sin (2 * pi * 101 / (44100 / 440))), Finite (sin (2 * pi * 101 / (44100 / 440)))])"
  using after_100_frames frame_101_alone by (rule conjI)

text \<open>
  C4 as stated fails: the phase after the further frame is \<open>17 / 22\<close>, which is not
  near 101.
\<close>

theorem scenario_phase_is_not_101:
  "returned_phase (callback \<lparr>generator = 100, samplerate = 44100, channels = 2, audioUnit = 1\<rparr>
       0 () 0 1 (map Finite [0, 0])) = Some (17 / 22)
   \<and> \<not> \<bar>17 / 22 - 101\<bar> < (1 :: real)"
  unfolding frame_101_alone by simp

text \<open>
  C5. At 44100 frames per second, a request for 101 frames from phase 0 runs the
  subtraction of line 52 exactly once, and the phase on return, \<open>101 - P\<close>, is in
  \<open>[0, P)\<close>.
\<close>

theorem scenario_101_frames_one_subtraction:
  "returned_phase (callback \<lparr>generator = 0, samplerate = 44100, channels = 2, audioUnit = 1\<rparr>
       0 () 0 101 (replicate 202 (Finite 0))) = Some (101 - 44100 / 440)
   \<and> subtractions (44100 / 440) 0 101 = 1
   \<and> (0 :: real) \<le> 101 - 44100 / 440
   \<and> (101 - 44100 / 440 :: real) < 44100 / 440"
proof -
  have "returned_phase (callback \<lparr>generator = 0, samplerate = 44100, channels = 2, audioUnit = 1\<rparr>
       0 () 0 101 (replicate 202 (Finite 0))) = Some ((wrap_step (44100 / 440) ^^ 101) 0)"
    using callback_renders [OF _ main_sizes(3), of 0 0 "()" 0] by simp
  then have phase: "returned_phase (callback \<lparr>generator = 0, samplerate = 44100, channels = 2, audioUnit = 1\<rparr>
       0 () 0 101 (replicate 202 (Finite 0))) = Some (101 - 44100 / 440)"
    unfolding hundred_and_one_frames .
  have "subtractions (44100 / 440) 0 (100 + 1)
      = subtractions (44100 / 440) 0 100 + subtractions (44100 / 440) 100 1"
    unfolding subtractions_add hundred_frames ..
  moreover have "subtractions (44100 / 440) 0 100 = 0"
    by (rule subtractions_no_wrap) simp
  moreover have "subtractions (44100 / 440) 100 1 = 1"
    by simp
  ultimately have count: "subtractions (44100 / 440) 0 101 = 1"
    by simp
  show ?thesis
    using phase count by simp
qed

text \<open>
  C6. A request for zero frames returns at once: the status is \<^verbatim>\<open>noErr\<close>, the context,
  and with it the phase, is the one passed in, and no slot of the sample memory is
  written.
\<close>

theorem zero_frames_change_nothing:
  "callback context ioActionFlags inTimeStamp inBusNumber 0 data = Some (noErr, context, data)"
  by (simp add: callback_def frame_loop.simps [of _ _ 0 0])




text \<open>
  C8. Whenever the callback returns, the sample rate, the channel count and the
  audio-unit handle of the context are the ones passed in: the context on return is the
  context passed in with a new generator.
\<close>

theorem only_phase_changes:
  assumes "callback context ioActionFlags inTimeStamp inBusNumber inNumberFrames data
             = Some (status, context', data')"
  shows "samplerate context' = samplerate context \<and> channels context' = channels context
         \<and> audioUnit context' = audioUnit context
         \<and> context' = context\<lparr>generator := generator context'\<rparr>"
  using callback_generator(2) [OF assms] by simp

theorem only_phase_changes_witness:
  "callback \<lparr>generator = 0, samplerate = 1760, channels = 2, audioUnit = 1\<rparr> 0 () 0 2 (map Finite [5, 5, 5, 5, 5])
     = Some (noErr, \<lparr>generator = 2, samplerate = 1760, channels = 2, audioUnit = 1\<rparr>, (map Finite [1, 1, 0, 0, 5]))
   \<and> samplerate \<lparr>generator = 2, samplerate = 1760, channels = 2, audioUnit = 1\<rparr>
       = samplerate \<lparr>generator = 0, samplerate = 1760, channels = 2, audioUnit = 1\<rparr>
   \<and> channels \<lparr>generator = 2, samplerate = 1760, channels = 2, audioUnit = 1\<rparr>
       = channels \<lparr>generator = 0, samplerate = 1760, channels = 2, audioUnit = 1\<rparr>
   \<and> audioUnit \<lparr>generator = 2, samplerate = 1760, channels = 2, audioUnit = 1\<rparr>
       = audioUnit \<lparr>generator = 0, samplerate = 1760, channels = 2, audioUnit = 1\<rparr>"
proof -
  let ?ctx = "\<lparr>generator = 0, samplerate = 1760, channels = 2, audioUnit = 1\<rparr>"
  have run: "callback ?ctx 0 () 0 2 (map Finite [5, 5, 5, 5, 5])
      = Some (noErr, \<lparr>generator = 2, samplerate = 1760, channels = 2, audioUnit = 1\<rparr>, (map Finite [1, 1, 0, 0, 5]))"
    by (rule two_frames_run)
  show ?thesis
    using only_phase_changes [OF run] run by simp
qed

text \<open>
  C9. For a positive sample rate, a positive channel count and an adequately sized
  sample memory the callback returns, the status is \<^verbatim>\<open>noErr\<close>, the sample memory keeps
  its size, and every one of the \<open>N \<times> channels\<close> requested slots holds the sample of
  its frame.
\<close>

theorem callback_succeeds_and_fills:
  assumes "0 < samplerate context" and "0 < channels context"
    and "adequately_sized context inNumberFrames data"
  shows "\<exists>context' data'.
           callback context ioActionFlags inTimeStamp inBusNumber inNumberFrames data
             = Some (noErr, context', data')
           \<and> length data' = length data
           \<and> (\<forall>k < unat inNumberFrames * nat (channels context).
                 data' ! k =
                   sinf (narrow (2 * M_PI
                     * reference_phase (samplerate context / 440) (generator context)
                         (Suc (k div nat (channels context)))
                     / (samplerate context / 440))))"
proof -
  define P where "P = samplerate context / 440"
  define c where "c = nat (channels context)"
  define N where "N = unat inNumberFrames"
  define out where "out = reference_render P c (generator context) N @ drop (N * c) data"
  have eq: "int (N * c) = uint inNumberFrames * channels context"
    using assms(2) by (simp add: N_def c_def)
  have "uint inNumberFrames * channels context \<le> int (length data)"
    using assms(3) by (simp add: adequately_sized_def)
  then have "int (N * c) \<le> int (length data)"
    unfolding eq .
  then have fits: "N * c \<le> length data"
    by (simp only: of_nat_le_iff)
  have len: "length out = length data"
    using fits by (simp add: out_def length_reference_render)
  have slots: "out ! k = sinf (narrow (2 * M_PI * reference_phase P (generator context) (Suc (k div c)) / P))"
    if "k < N * c" for k
    using that
    by (simp add: out_def nth_append length_reference_render nth_reference_render
          reference_phase_funpow sample_at_def del: reference_phase.simps)
  have "callback context ioActionFlags inTimeStamp inBusNumber inNumberFrames data
      = Some (noErr, context\<lparr>generator := (wrap_step P ^^ N) (generator context)\<rparr>, out)"
    using callback_renders [OF assms(2,3)] by (simp add: P_def c_def N_def out_def)
  with len slots show ?thesis
    unfolding P_def c_def N_def by blast
qed

theorem callback_succeeds_and_fills_witness:
  "0 < samplerate \<lparr>generator = 0, samplerate = 1760, channels = 2, audioUnit = 1\<rparr>
   \<and> 0 < channels \<lparr>generator = 0, samplerate = 1760, channels = 2, audioUnit = 1\<rparr>
   \<and> adequately_sized \<lparr>generator = 0, samplerate = 1760, channels = 2, audioUnit = 1\<rparr> 2 (map Finite [5, 5, 5, 5, 5])
   \<and> (\<exists>context' data'.
         callback \<lparr>generator = 0, samplerate = 1760, channels = 2, audioUnit = 1\<rparr> 0 () 0 2 (map Finite [5, 5, 5, 5, 5])
           = Some (noErr, context', data')
         \<and> length data' = length (map Finite [5, 5, 5, 5, 5 :: real])
         \<and> (\<forall>k < unat (2 :: UInt32) * nat 2.
               data' ! k = sinf (narrow (2 * M_PI * reference_phase (1760 / 440) 0 (Suc (k div nat 2)) / (1760 / 440)))))"
proof -
  let ?ctx = "\<lparr>generator = 0, samplerate = 1760, channels = 2, audioUnit = 1\<rparr>"
  have rate: "0 < samplerate ?ctx"
    by simp
  have pos: "0 < channels ?ctx"
    by simp
  have size: "adequately_sized ?ctx 2 (map Finite [5, 5, 5, 5, 5])"
    by (simp add: adequately_sized_def INT_MAX_def)
  show ?thesis
    using callback_succeeds_and_fills [OF rate pos size, of 0 "()" 0] rate pos size
    by (simp del: reference_phase.simps)
qed

text \<open>
  C10. Two calls with the same generator, sample rate and channel count and the same
  frame count, each on an adequately sized sample memory, return the same status, the
  same generator, sample rate and channel count, and the same written slots, whatever
  the action flags, the time stamps, the bus numbers, the audio-unit handles and the
  previous contents of the two sample memories are.
\<close>

theorem output_depends_on_state_and_count_only:
  assumes "generator context1 = generator context2"
    and "samplerate context1 = samplerate context2"
    and "channels context1 = channels context2"
    and "0 < channels context1"
    and "adequately_sized context1 inNumberFrames data1"
    and "adequately_sized context2 inNumberFrames data2"
  shows "\<exists>status context1' data1' context2' data2'.
           callback context1 ioActionFlags1 inTimeStamp1 inBusNumber1 inNumberFrames data1
             = Some (status, context1', data1')
           \<and> callback context2 ioActionFlags2 inTimeStamp2 inBusNumber2 inNumberFrames data2
             = Some (status, context2', data2')
           \<and> generator context1' = generator context2'
           \<and> samplerate context1' = samplerate context2'
           \<and> channels context1' = channels context2'
           \<and> take (unat inNumberFrames * nat (channels context1)) data1'
             = take (unat inNumberFrames * nat (channels context1)) data2'"
proof -
  have pos2: "0 < channels context2"
    using assms(3,4) by simp
  note run1 = callback_renders [OF assms(4,5), of ioActionFlags1 inTimeStamp1 inBusNumber1]
  note run2 = callback_renders [OF pos2 assms(6), of ioActionFlags2 inTimeStamp2 inBusNumber2]
  show ?thesis
    unfolding run1 run2 using assms(1,2,3)
    by (simp add: length_reference_render)
qed

theorem output_depends_on_state_and_count_only_witness:
  "generator \<lparr>generator = 0, samplerate = 1760, channels = 2, audioUnit = 1\<rparr>
     = generator \<lparr>generator = 0, samplerate = 1760, channels = 2, audioUnit = 7\<rparr>
   \<and> samplerate \<lparr>generator = 0, samplerate = 1760, channels = 2, audioUnit = 1\<rparr>
     = samplerate \<lparr>generator = 0, samplerate = 1760, channels = 2, audioUnit = 7\<rparr>
   \<and> channels \<lparr>generator = 0, samplerate = 1760, channels = 2, audioUnit = 1\<rparr>
     = channels \<lparr>generator = 0, samplerate = 1760, channels = 2, audioUnit = 7\<rparr>
   \<and> 0 < channels \<lparr>generator = 0, samplerate = 1760, channels = 2, audioUnit = 1\<rparr>
   \<and> adequately_sized \<lparr>generator = 0, samplerate = 1760, channels = 2, audioUnit = 1\<rparr> 2 (map Finite [5, 5, 5, 5, 5])
   \<and> adequately_sized \<lparr>generator = 0, samplerate = 1760, channels = 2, audioUnit = 7\<rparr> 2 (map Finite [8, 8, 8, 8])
   \<and> (\<exists>status context1' data1' context2' data2'.
         callback \<lparr>generator = 0, samplerate = 1760, channels = 2, audioUnit = 1\<rparr> 0 () 0 2 (map Finite [5, 5, 5, 5, 5])
           = Some (status, context1', data1')
         \<and> callback \<lparr>generator = 0, samplerate = 1760, channels = 2, audioUnit = 7\<rparr> 3 True 1 2 (map Finite [8, 8, 8, 8])
           = Some (status, context2', data2')
         \<and> generator context1' = generator context2'
         \<and> samplerate context1' = samplerate context2'
         \<and> channels context1' = channels context2'
         \<and> take (unat (2 :: UInt32) * nat 2) data1' = take (unat (2 :: UInt32) * nat 2) data2')"
proof -
  let ?context1 = "\<lparr>generator = 0, samplerate = 1760, channels = 2, audioUnit = 1\<rparr>"
  let ?context2 = "\<lparr>generator = 0, samplerate = 1760, channels = 2, audioUnit = 7\<rparr>"
  have same: "generator ?context1 = generator ?context2" "samplerate ?context1 = samplerate ?context2"
    "channels ?context1 = channels ?context2"
    by simp_all
  have pos: "0 < channels ?context1"
    by simp
  have size1: "adequately_sized ?context1 2 (map Finite [5, 5, 5, 5, 5])"
    and size2: "adequately_sized ?context2 2 (map Finite [8, 8, 8, 8])"
    by (simp_all add: adequately_sized_def INT_MAX_def)
  show ?thesis
    using output_depends_on_state_and_count_only [OF same pos size1 size2, of 0 "()" 0 3 True 1]
      size1 size2
    by simp
qed

end
